theory Spec2Isabelle
  imports Main "HOL-Library.Word"
begin

unbundle bit_operations_syntax

section \<open>The decoder pipeline of decode_zip.py\<close>

text \<open>
  The program is three statements:
  \<^verbatim>\<open>
  with open('ghana_voice_ledger_base64.txt', 'r') as f:
      data = f.read().strip()

  with open('GhanaVoiceLedger.zip', 'wb') as f:
      f.write(base64.b64decode(data))

  print("ZIP file created successfully: GhanaVoiceLedger.zip")
  \<close>
  Its behaviour is that of the Python operations it calls, so the embedding has two layers:
  the library operations (\<open>str.strip\<close>, \<open>base64.b64decode\<close>) as CPython 3.11
  implements them, and the script itself as a function on the state of the two files and of
  standard output.
\<close>

subsection \<open>Data\<close>

text \<open>
  A Python \<open>str\<close> is a sequence of Unicode code points, a \<open>bytes\<close> object a sequence of
  8-bit values.
\<close>

type_synonym codepoint = nat
type_synonym str = "codepoint list"
type_synonym byte = "8 word"

definition text_of :: "string \<Rightarrow> str" where
  "text_of s = map of_char s"

definition bytes_of :: "string \<Rightarrow> byte list" where
  "bytes_of s = map of_char s"

text \<open>
  Every exception the script can end with. \<open>binascii.Error\<close> carries one of the two messages
  of \<open>binascii.a2b_base64\<close>; the first names a number of data characters.
\<close>

datatype binascii_msg = InvalidLength nat | IncorrectPadding

datatype error =
    FileNotFoundError
  | InputUnreadable
  | OutputUnwritable
  | ValueError
  | BinasciiError binascii_msg

subsection \<open>str.strip\<close>

text \<open>
  \<open>str.strip()\<close> without argument removes the leading and the trailing run of characters for
  which \<open>str.isspace\<close> holds. These are the code points CPython classifies as whitespace.
\<close>

definition isspace :: "codepoint \<Rightarrow> bool" where
  "isspace c =
     ((9 \<le> c \<and> c \<le> 13) \<or> (28 \<le> c \<and> c \<le> 32) \<or> c = 133 \<or> c = 160 \<or> c = 5760
      \<or> (8192 \<le> c \<and> c \<le> 8202) \<or> c = 8232 \<or> c = 8233 \<or> c = 8239 \<or> c = 8287
      \<or> c = 12288)"

definition strip :: "str \<Rightarrow> str" where
  "strip s = rev (dropWhile isspace (rev (dropWhile isspace s)))"

subsection \<open>base64.b64decode\<close>

text \<open>
  \<open>base64.b64decode(s)\<close> with a \<open>str\<close> argument first encodes it as ASCII,
  \<^verbatim>\<open>
  try:
      return s.encode('ascii')
  except UnicodeEncodeError:
      raise ValueError('string argument should contain only ASCII characters')
  \<close>
  and then calls \<open>binascii.a2b_base64\<close> with \<open>strict_mode\<close> false, since the script leaves
  \<open>validate\<close> at its default.
\<close>

definition is_ascii :: "str \<Rightarrow> bool" where
  "is_ascii s = list_all (\<lambda>c. c < 128) s"

definition bytes_from_decode_data :: "str \<Rightarrow> error + byte list" where
  "bytes_from_decode_data s = (if is_ascii s then Inr (map of_nat s) else Inl ValueError)"

definition BASE64_PAD :: byte where
  "BASE64_PAD = 61"

text \<open>
  \<open>table_a2b_base64\<close> is a literal array of 256 entries in binascii.c: the value of each
  alphabet character, 0 at the pad character, and -1 (255 as \<open>unsigned char\<close>) elsewhere.
\<close>

definition table_a2b_base64 :: "byte \<Rightarrow> byte" where
  "table_a2b_base64 c =
     (if c = 43 then 62
      else if c = 47 then 63
      else if 48 \<le> c \<and> c \<le> 57 then c + 4
      else if c = 61 then 0
      else if 65 \<le> c \<and> c \<le> 90 then c - 65
      else if 97 \<le> c \<and> c \<le> 122 then c - 71
      else 255)"

text \<open>
  The loop of \<open>binascii_a2b_base64_impl\<close> outside strict mode, over the remaining input, with
  its variables \<open>quad_pos\<close>, \<open>leftchar\<close>, \<open>pads\<close> and the bytes written so far:
  \<^verbatim>\<open>
  for (size_t i = 0; i < ascii_len; i++) {
      unsigned char this_ch = ascii_data[i];
      if (this_ch == BASE64_PAD) {
          if (quad_pos >= 2 && quad_pos + ++pads >= 4) goto done;
          continue;
      }
      this_ch = table_a2b_base64[this_ch];
      if (this_ch >= 64) continue;
      pads = 0;
      switch (quad_pos) {
      case 0: quad_pos = 1; leftchar = this_ch; break;
      case 1: quad_pos = 2; *bin_data++ = (leftchar << 2) | (this_ch >> 4);
              leftchar = this_ch & 0x0f; break;
      case 2: quad_pos = 3; *bin_data++ = (leftchar << 4) | (this_ch >> 2);
              leftchar = this_ch & 0x03; break;
      case 3: quad_pos = 0; *bin_data++ = (leftchar << 6) | (this_ch);
              leftchar = 0; break;
      }
  }
  if (quad_pos != 0) {
      if (quad_pos == 1) error "number of data characters (%zd) cannot be 1 more than a
                                multiple of 4", (bin_data - bin_data_start) / 3 * 4 + 1
      else error "Incorrect padding"
  }
  done: return the bytes written
  \<close>
  The short-circuit \<open>&&\<close> increments \<open>pads\<close> only when \<open>quad_pos >= 2\<close>.
\<close>

fun a2b_base64_loop ::
  "byte list \<Rightarrow> nat \<Rightarrow> byte \<Rightarrow> nat \<Rightarrow> byte list \<Rightarrow> error + byte list" where
  "a2b_base64_loop [] quad_pos leftchar pads bin_data =
     (if quad_pos \<noteq> 0 then
        (if quad_pos = 1
         then Inl (BinasciiError (InvalidLength (length bin_data div 3 * 4 + 1)))
         else Inl (BinasciiError IncorrectPadding))
      else Inr bin_data)"
| "a2b_base64_loop (c # rest) quad_pos leftchar pads bin_data =
     (if c = BASE64_PAD then
        (if 2 \<le> quad_pos \<and> 4 \<le> quad_pos + (pads + 1) then Inr bin_data
         else a2b_base64_loop rest quad_pos leftchar
                (if 2 \<le> quad_pos then pads + 1 else pads) bin_data)
      else
        (let this_ch = table_a2b_base64 c in
         if 64 \<le> this_ch then a2b_base64_loop rest quad_pos leftchar pads bin_data
         else if quad_pos = 0 then a2b_base64_loop rest 1 this_ch 0 bin_data
         else if quad_pos = 1 then
           a2b_base64_loop rest 2 (this_ch AND 15) 0
             (bin_data @ [push_bit 2 leftchar OR drop_bit 4 this_ch])
         else if quad_pos = 2 then
           a2b_base64_loop rest 3 (this_ch AND 3) 0
             (bin_data @ [push_bit 4 leftchar OR drop_bit 2 this_ch])
         else if quad_pos = 3 then
           a2b_base64_loop rest 0 0 0 (bin_data @ [push_bit 6 leftchar OR this_ch])
         else a2b_base64_loop rest quad_pos leftchar 0 bin_data))"

definition a2b_base64 :: "byte list \<Rightarrow> error + byte list" where
  "a2b_base64 ascii_data = a2b_base64_loop ascii_data 0 0 0 []"

definition b64decode :: "str \<Rightarrow> error + byte list" where
  "b64decode s =
     (case bytes_from_decode_data s of
        Inl e \<Rightarrow> Inl e
      | Inr ascii_data \<Rightarrow> a2b_base64 ascii_data)"

subsection \<open>The files and the script\<close>

text \<open>
  The script touches two fixed paths and standard output. The input file is absent, present
  but not readable as text (no permission, a directory, bytes the text encoding rejects), or
  holds the text that \<open>f.read()\<close> returns. The output file is absent or holds bytes;
  \<open>output_openable\<close> says whether \<open>open(..., 'wb')\<close> succeeds at that path.
\<close>

definition input_path :: string where
  "input_path = ''ghana_voice_ledger_base64.txt''"

definition output_path :: string where
  "output_path = ''GhanaVoiceLedger.zip''"

datatype input_state = Absent | Unreadable | Contents str

record world =
  input_file :: input_state
  output_file :: "byte list option"
  output_openable :: bool
  stdout :: "string list"

text \<open>\<open>open(input_path, 'r')\<close> followed by \<open>f.read()\<close>: the file system is not changed.\<close>

definition open_read :: "world \<Rightarrow> error + str" where
  "open_read w =
     (case input_file w of
        Absent \<Rightarrow> Inl FileNotFoundError
      | Unreadable \<Rightarrow> Inl InputUnreadable
      | Contents t \<Rightarrow> Inr t)"

text \<open>\<open>open(output_path, 'wb')\<close>: creates the file or truncates it to zero bytes.\<close>

definition open_wb :: "world \<Rightarrow> error + world" where
  "open_wb w =
     (if output_openable w then Inr (w\<lparr>output_file := Some []\<rparr>) else Inl OutputUnwritable)"

text \<open>\<open>f.write(bs)\<close> on the handle just opened: the bytes go after what the file holds.\<close>

definition file_write :: "world \<Rightarrow> byte list \<Rightarrow> world" where
  "file_write w bs =
     w\<lparr>output_file := Some ((case output_file w of None \<Rightarrow> [] | Some old \<Rightarrow> old) @ bs)\<rparr>"

definition print :: "world \<Rightarrow> string \<Rightarrow> world" where
  "print w line = w\<lparr>stdout := stdout w @ [line]\<rparr>"

text \<open>
  The script. The argument \<open>base64.b64decode(data)\<close> is evaluated inside the second
  \<open>with\<close> block, that is after \<open>open(..., 'wb')\<close> has returned; an exception leaves the
  block, closes the file and ends the run. The result is the exception or \<open>()\<close>, with the
  state the run leaves behind.
\<close>

definition run :: "world \<Rightarrow> (error + unit) \<times> world" where
  "run w =
     (case open_read w of
        Inl e \<Rightarrow> (Inl e, w)
      | Inr contents \<Rightarrow>
          (let data = strip contents in
           case open_wb w of
             Inl e \<Rightarrow> (Inl e, w)
           | Inr w1 \<Rightarrow>
               (case b64decode data of
                  Inl e \<Rightarrow> (Inl e, w1)
                | Inr decoded \<Rightarrow>
                    (Inr (),
                     print (file_write w1 decoded)
                       ''ZIP file created successfully: GhanaVoiceLedger.zip''))))"

subsection \<open>The standard scheme, for stating the claims\<close>

text \<open>
  The claims speak of the base64 alphabet and of encoding with the standard scheme. Neither
  is part of the script; both are written here after RFC 4648, section 4, which is also what
  Python's \<open>base64.b64encode\<close> computes: three bytes give four characters of the
  alphabet, a last group of one or two bytes is padded with \<open>=\<close>.
\<close>

definition base64_alphabet :: "codepoint \<Rightarrow> bool" where
  "base64_alphabet c =
     ((65 \<le> c \<and> c \<le> 90) \<or> (97 \<le> c \<and> c \<le> 122) \<or> (48 \<le> c \<and> c \<le> 57) \<or> c = 43 \<or> c = 47)"

definition base64_or_pad :: "codepoint \<Rightarrow> bool" where
  "base64_or_pad c = (base64_alphabet c \<or> c = 61)"

definition table_b2a_base64 :: "byte \<Rightarrow> byte" where
  "table_b2a_base64 i =
     bytes_of ''ABCDEFGHIJKLMNOPQRSTUVWXYZabcdefghijklmnopqrstuvwxyz0123456789+/'' ! unat i"

fun b2a_base64 :: "byte list \<Rightarrow> byte list" where
  "b2a_base64 (a # b # c # rest) =
     [table_b2a_base64 (drop_bit 2 a),
      table_b2a_base64 (push_bit 4 (a AND 3) OR drop_bit 4 b),
      table_b2a_base64 (push_bit 2 (b AND 15) OR drop_bit 6 c),
      table_b2a_base64 (c AND 63)] @ b2a_base64 rest"
| "b2a_base64 [a, b] =
     [table_b2a_base64 (drop_bit 2 a),
      table_b2a_base64 (push_bit 4 (a AND 3) OR drop_bit 4 b),
      table_b2a_base64 (push_bit 2 (b AND 15)),
      BASE64_PAD]"
| "b2a_base64 [a] =
     [table_b2a_base64 (drop_bit 2 a),
      table_b2a_base64 (push_bit 4 (a AND 3)),
      BASE64_PAD,
      BASE64_PAD]"
| "b2a_base64 [] = []"

text \<open>The encoded bytes as the text of a file: every byte is one ASCII character.\<close>

definition b64encode :: "byte list \<Rightarrow> str" where
  "b64encode bs = map unat (b2a_base64 bs)"

text \<open>
  A text made of a body without \<open>=\<close> that holds \<open>n\<close> characters of the alphabet, followed
  by \<open>k\<close> characters \<open>=\<close>, has an invalid padding length when the last group of the body
  is not completed by the padding: one character too many, or two characters with fewer
  than two \<open>=\<close>, or three characters with no \<open>=\<close>.
\<close>

definition padding_invalid :: "nat \<Rightarrow> nat \<Rightarrow> bool" where
  "padding_invalid n k = (n mod 4 = 1 \<or> (n mod 4 = 2 \<and> k < 2) \<or> (n mod 4 = 3 \<and> k = 0))"

text \<open>
  The standard decoding: \<open>B\<close> is the base64 decoding of a text when the text is the
  encoding of \<open>B\<close>.
\<close>

definition base64_decoding :: "str \<Rightarrow> byte list \<Rightarrow> bool" where
  "base64_decoding t B = (b64encode B = t)"

text \<open>
  Padding in a text of alphabet characters and \<open>=\<close>. \<open>ndata\<close> counts the alphabet
  characters. A group is closed by padding where \<open>=\<close> stands after a number of alphabet
  characters that is 3 more than a multiple of 4, or \<open>==\<close> after a number that is 2 more;
  \<open>q\<close> is the number of alphabet characters before the text. The padding of a text is
  valid when its alphabet characters fill whole groups of 4 or a group is closed by padding.
\<close>

definition ndata :: "str \<Rightarrow> nat" where
  "ndata s = length (filter base64_alphabet s)"

definition padded_group :: "nat \<Rightarrow> str \<Rightarrow> bool" where
  "padded_group q s =
     ((\<exists>u v. s = u @ 61 # v \<and> (q + ndata u) mod 4 = 3)
      \<or> (\<exists>u v. s = u @ 61 # 61 # v \<and> (q + ndata u) mod 4 = 2))"

definition decodable :: "str \<Rightarrow> bool" where
  "decodable s = (ndata s mod 4 = 0 \<or> padded_group 0 s)"

text \<open>
  A state in which the output file can be opened and nothing has been printed yet, for
  stating runs on concrete inputs.
\<close>

definition world_with :: "input_state \<Rightarrow> byte list option \<Rightarrow> world" where
  "world_with inp out =
     \<lparr>input_file = inp, output_file = out, output_openable = True, stdout = []\<rparr>"

section \<open>Properties of the library operations\<close>

subsection \<open>Bytes and sextets\<close>

lemma three_mask: "(3::byte) = mask 2"
  and fifteen_mask: "(15::byte) = mask 4"
  and sixtythree_mask: "(63::byte) = mask 6"
  by (simp_all add: mask_eq_exp_minus_1)

lemma byte_eqI:
  assumes "\<And>n. n \<in> {0, 1, 2, 3, 4, 5, 6, 7::nat} \<Longrightarrow> bit a n = bit b n"
  shows "a = (b::byte)"
proof (rule bit_word_eqI)
  fix n :: nat
  assume "n < LENGTH(8)"
  then have "n < 8" by simp
  then have "n \<in> {0, 1, 2, 3, 4, 5, 6, 7::nat}"
    unfolding insert_iff empty_iff by arith
  then show "bit a n = bit b n" by (rule assms)
qed

lemma less_64I: "w AND mask 6 = w \<Longrightarrow> w < (64::byte)"
  using and_mask_less_size [of 6 w] by (simp add: word_size)

text \<open>The four sextets of a group of three bytes, and of a shorter last group, are below 64.\<close>

lemma sextet1_less: "drop_bit 2 (a::byte) < 64"
  by (rule less_64I, rule byte_eqI) (auto simp: bit_simps dest: bit_imp_le_length)

lemma sextet2_less: "push_bit 4 (a AND 3) OR drop_bit 4 b < (64::byte)"
  unfolding three_mask
  by (rule less_64I, rule byte_eqI) (auto simp: bit_simps dest: bit_imp_le_length)

lemma sextet3_less: "push_bit 2 (b AND 15) OR drop_bit 6 c < (64::byte)"
  unfolding fifteen_mask
  by (rule less_64I, rule byte_eqI) (auto simp: bit_simps dest: bit_imp_le_length)

lemma sextet4_less: "c AND 63 < (64::byte)"
  unfolding sixtythree_mask
  by (rule less_64I, rule byte_eqI) (auto simp: bit_simps dest: bit_imp_le_length)

lemma sextet2_last_less: "push_bit 4 (a AND 3) < (64::byte)"
  unfolding three_mask
  by (rule less_64I, rule byte_eqI) (auto simp: bit_simps dest: bit_imp_le_length)

lemma sextet3_last_less: "push_bit 2 (b AND 15) < (64::byte)"
  unfolding fifteen_mask
  by (rule less_64I, rule byte_eqI) (auto simp: bit_simps dest: bit_imp_le_length)

text \<open>What the decoder assembles from these sextets are the bytes they were cut from.\<close>

lemma byte1_of_sextets:
  "push_bit 2 (drop_bit 2 a) OR drop_bit 4 (push_bit 4 (a AND 3) OR drop_bit 4 b) = (a::byte)"
  unfolding three_mask
  by (rule byte_eqI)
     (auto simp: bit_simps numeral_2_eq_2 [symmetric] numeral_3_eq_3 [symmetric])

lemma byte2_of_sextets:
  "push_bit 4 ((push_bit 4 (a AND 3) OR drop_bit 4 b) AND 15)
     OR drop_bit 2 (push_bit 2 (b AND 15) OR drop_bit 6 c) = (b::byte)"
  unfolding three_mask fifteen_mask
  by (rule byte_eqI)
     (auto simp: bit_simps numeral_2_eq_2 [symmetric] numeral_3_eq_3 [symmetric])

lemma byte3_of_sextets:
  "push_bit 6 ((push_bit 2 (b AND 15) OR drop_bit 6 c) AND 3) OR (c AND 63) = (c::byte)"
  unfolding three_mask fifteen_mask sixtythree_mask
  by (rule byte_eqI)
     (auto simp: bit_simps numeral_2_eq_2 [symmetric] numeral_3_eq_3 [symmetric])

lemma byte1_of_last_sextets:
  "push_bit 2 (drop_bit 2 a) OR drop_bit 4 (push_bit 4 (a AND 3)) = (a::byte)"
  unfolding three_mask
  by (rule byte_eqI)
     (auto simp: bit_simps numeral_2_eq_2 [symmetric] numeral_3_eq_3 [symmetric])

lemma byte2_of_last_sextets:
  "push_bit 4 ((push_bit 4 (a AND 3) OR drop_bit 4 b) AND 15)
     OR drop_bit 2 (push_bit 2 (b AND 15)) = (b::byte)"
  unfolding three_mask fifteen_mask
  by (rule byte_eqI)
     (auto simp: bit_simps numeral_2_eq_2 [symmetric] numeral_3_eq_3 [symmetric])

subsection \<open>The two tables\<close>

lemma b2a_table_length:
  "length (bytes_of ''ABCDEFGHIJKLMNOPQRSTUVWXYZabcdefghijklmnopqrstuvwxyz0123456789+/'') = 64"
  by (simp add: bytes_of_def)

lemma a2b_of_b2a_table:
  "map table_a2b_base64
     (bytes_of ''ABCDEFGHIJKLMNOPQRSTUVWXYZabcdefghijklmnopqrstuvwxyz0123456789+/'')
   = map of_nat [0..<64]"
  by (simp add: bytes_of_def table_a2b_base64_def upt_rec)

lemma b2a_table_chars:
  "list_all (\<lambda>c. c \<noteq> BASE64_PAD \<and> c < 128 \<and> \<not> isspace (unat c))
     (bytes_of ''ABCDEFGHIJKLMNOPQRSTUVWXYZabcdefghijklmnopqrstuvwxyz0123456789+/'')"
  by (simp add: bytes_of_def BASE64_PAD_def isspace_def)

lemma table_a2b_b2a:
  assumes "i < 64"
  shows "table_a2b_base64 (table_b2a_base64 i) = i"
proof -
  have u: "unat i < 64"
    using assms by (simp add: word_less_nat_alt)
  have "table_a2b_base64 (table_b2a_base64 i)
      = map table_a2b_base64
          (bytes_of ''ABCDEFGHIJKLMNOPQRSTUVWXYZabcdefghijklmnopqrstuvwxyz0123456789+/'')
        ! unat i"
    unfolding table_b2a_base64_def using u b2a_table_length by (simp only: nth_map)
  also have "\<dots> = of_nat (unat i)"
    unfolding a2b_of_b2a_table using u by simp
  finally show ?thesis by simp
qed

lemma table_b2a_char:
  assumes "i < 64"
  shows "table_b2a_base64 i \<noteq> BASE64_PAD"
    and "table_b2a_base64 i < 128"
    and "\<not> isspace (unat (table_b2a_base64 i))"
proof -
  have u: "unat i < 64"
    using assms by (simp add: word_less_nat_alt)
  with b2a_table_chars b2a_table_length
  show "table_b2a_base64 i \<noteq> BASE64_PAD" "table_b2a_base64 i < 128"
    "\<not> isspace (unat (table_b2a_base64 i))"
    unfolding table_b2a_base64_def by (simp_all add: list_all_length)
qed

text \<open>
  On ASCII code points the decoder's table accepts exactly the characters of the alphabet,
  and the pad byte is the character \<open>=\<close>: checked on each of the 128 code points.
\<close>

lemma ascii_table_all:
  "list_all
     (\<lambda>c. base64_alphabet c
            = (word_of_nat c \<noteq> BASE64_PAD \<and> table_a2b_base64 (word_of_nat c) < 64)
         \<and> (word_of_nat c = BASE64_PAD) = (c = 61))
     [0..<128]"
  by (simp add: upt_rec base64_alphabet_def BASE64_PAD_def table_a2b_base64_def
        word_le_nat_alt)

lemma alphabet_iff_table:
  "c < 128 \<Longrightarrow>
   base64_alphabet c
     = (word_of_nat c \<noteq> BASE64_PAD \<and> table_a2b_base64 (word_of_nat c) < 64)"
  using ascii_table_all by (simp add: list_all_iff)

lemma pad_iff_61: "c < 128 \<Longrightarrow> (word_of_nat c = BASE64_PAD) = (c = 61)"
  using ascii_table_all by (simp add: list_all_iff)

subsection \<open>The decoding loop on encoded groups\<close>

lemma loop_full_group:
  assumes "s1 < 64" "s2 < 64" "s3 < 64" "s4 < 64"
  shows "a2b_base64_loop
           (table_b2a_base64 s1 # table_b2a_base64 s2 # table_b2a_base64 s3
              # table_b2a_base64 s4 # rest) 0 l p acc
       = a2b_base64_loop rest 0 0 0
           (acc @ [push_bit 2 s1 OR drop_bit 4 s2, push_bit 4 (s2 AND 15) OR drop_bit 2 s3,
                   push_bit 6 (s3 AND 3) OR s4])"
  using assms by (simp add: table_a2b_b2a table_b2a_char Let_def not_le [symmetric])

lemma loop_last_two_bytes:
  assumes "s1 < 64" "s2 < 64" "s3 < 64"
  shows "a2b_base64_loop
           [table_b2a_base64 s1, table_b2a_base64 s2, table_b2a_base64 s3, BASE64_PAD] 0 l p acc
       = Inr (acc @ [push_bit 2 s1 OR drop_bit 4 s2, push_bit 4 (s2 AND 15) OR drop_bit 2 s3])"
  using assms by (simp add: table_a2b_b2a table_b2a_char Let_def not_le [symmetric])

lemma loop_last_byte:
  assumes "s1 < 64" "s2 < 64"
  shows "a2b_base64_loop
           [table_b2a_base64 s1, table_b2a_base64 s2, BASE64_PAD, BASE64_PAD] 0 l p acc
       = Inr (acc @ [push_bit 2 s1 OR drop_bit 4 s2])"
  using assms by (simp add: table_a2b_b2a table_b2a_char Let_def not_le [symmetric])

text \<open>
  Decoding an encoded sequence, by induction over the groups of the encoder; the bytes
  written so far, the left-over \<open>leftchar\<close> and \<open>pads\<close> are arbitrary.
\<close>

lemma loop_b2a_base64: "a2b_base64_loop (b2a_base64 bs) 0 l p acc = Inr (acc @ bs)"
proof (induction bs arbitrary: l p acc rule: b2a_base64.induct)
  case (1 a b c rest)
  show ?case
    by (simp only: b2a_base64.simps append_Cons append_Nil
          loop_full_group [OF sextet1_less sextet2_less sextet3_less sextet4_less]
          byte1_of_sextets byte2_of_sextets byte3_of_sextets "1.IH")
       simp
next
  case (2 a b)
  show ?case
    by (simp only: b2a_base64.simps
          loop_last_two_bytes [OF sextet1_less sextet2_less sextet3_last_less]
          byte1_of_sextets byte2_of_last_sextets)
next
  case (3 a)
  show ?case
    by (simp only: b2a_base64.simps loop_last_byte [OF sextet1_less sextet2_last_less]
          byte1_of_last_sextets)
next
  case 4
  show ?case by simp
qed

lemma encoded_char:
  "i < 64 \<Longrightarrow> table_b2a_base64 i < 128 \<and> \<not> isspace (unat (table_b2a_base64 i))"
  by (simp add: table_b2a_char)

lemma pad_char: "BASE64_PAD < 128 \<and> \<not> isspace (unat BASE64_PAD)"
  by (simp add: BASE64_PAD_def isspace_def)

lemma b2a_base64_chars: "list_all (\<lambda>c. c < 128 \<and> \<not> isspace (unat c)) (b2a_base64 bs)"
  by (induction bs rule: b2a_base64.induct)
     (simp_all only: b2a_base64.simps list.pred_inject list_all_append append.simps
        encoded_char [OF sextet1_less] encoded_char [OF sextet2_less]
        encoded_char [OF sextet3_less] encoded_char [OF sextet4_less]
        encoded_char [OF sextet2_last_less] encoded_char [OF sextet3_last_less]
        pad_char simp_thms)

subsection \<open>strip\<close>

lemma dropWhile_none: "list_all (\<lambda>c. \<not> P c) s \<Longrightarrow> dropWhile P s = s"
  by (cases s) simp_all

lemma strip_no_space: "list_all (\<lambda>c. \<not> isspace c) s \<Longrightarrow> strip s = s"
  by (simp add: strip_def dropWhile_none)

lemma strip_b64encode: "strip (b64encode bs) = b64encode bs"
  using b2a_base64_chars [of bs]
  by (intro strip_no_space) (simp add: b64encode_def list_all_iff)

lemma strip_trailing_space:
  assumes "list_all isspace ws"
  shows "strip (s @ ws) = strip s"
proof (cases "list_all isspace s")
  case True
  with assms have "dropWhile isspace (s @ ws) = []" and "dropWhile isspace s = []"
    by (auto simp: list_all_iff)
  then show ?thesis by (simp only: strip_def)
next
  case False
  then obtain x where "x \<in> set s" "\<not> isspace x"
    by (auto simp: list_all_iff)
  then have "dropWhile isspace (s @ ws) = dropWhile isspace s @ ws"
    by (rule dropWhile_append1)
  moreover have "dropWhile isspace (rev ws @ r) = dropWhile isspace r" for r
    using assms by (intro dropWhile_append2) (simp add: list_all_iff)
  ultimately show ?thesis by (simp add: strip_def)
qed

text \<open>
  \<open>strip t\<close> is \<open>t\<close> without its leading and trailing whitespace: whitespace stands before
  and after it in \<open>t\<close>, and it neither starts nor ends with whitespace.
\<close>

lemma strip_is_trimmed:
  "\<exists>ws1 ws2. t = ws1 @ strip t @ ws2 \<and> list_all isspace ws1 \<and> list_all isspace ws2
      \<and> (strip t = [] \<or> (\<not> isspace (hd (strip t)) \<and> \<not> isspace (last (strip t))))"
proof -
  let ?m = "dropWhile isspace t"
  let ?d = "dropWhile isspace (rev ?m)"
  let ?ws1 = "takeWhile isspace t"
  let ?ws2 = "rev (takeWhile isspace (rev ?m))"
  have s: "strip t = rev ?d"
    by (simp only: strip_def)
  have "rev ?m = takeWhile isspace (rev ?m) @ ?d"
    by simp
  then have "rev (rev ?m) = rev (takeWhile isspace (rev ?m) @ ?d)"
    by (rule arg_cong)
  then have m: "?m = strip t @ ?ws2"
    unfolding s by (simp only: rev_rev_ident rev_append)
  have "t = ?ws1 @ ?m" by simp
  with m have t: "t = ?ws1 @ strip t @ ?ws2" by simp
  have w1: "list_all isspace ?ws1"
    by (auto simp: list_all_iff dest: set_takeWhileD)
  have w2: "list_all isspace ?ws2"
    by (auto simp: list_all_iff dest: set_takeWhileD)
  have ends: "\<not> isspace (hd (strip t)) \<and> \<not> isspace (last (strip t))" if ne: "strip t \<noteq> []"
  proof
    from ne have d: "?d \<noteq> []" unfolding s by simp
    have "?m \<noteq> []"
    proof
      assume "?m = []"
      then have "strip t = rev (dropWhile isspace (rev []))"
        by (simp only: strip_def)
      with ne show False by simp
    qed
    then have "\<not> isspace (hd ?m)" by (rule hd_dropWhile)
    moreover from m ne have "hd ?m = hd (strip t)"
      by (metis hd_append2)
    ultimately show "\<not> isspace (hd (strip t))" by simp
    from d have "\<not> isspace (hd ?d)" by (rule hd_dropWhile)
    moreover from d have "last (strip t) = hd ?d"
      unfolding s by (simp add: last_rev)
    ultimately show "\<not> isspace (last (strip t))" by simp
  qed
  from t w1 w2 ends show ?thesis by blast
qed

subsection \<open>b64decode\<close>

lemma b64decode_ascii: "is_ascii s \<Longrightarrow> b64decode s = a2b_base64 (map of_nat s)"
  by (simp add: b64decode_def bytes_from_decode_data_def)

lemma b64decode_not_ascii: "\<not> is_ascii s \<Longrightarrow> b64decode s = Inl ValueError"
  by (simp add: b64decode_def bytes_from_decode_data_def)

lemma b64decode_b64encode: "b64decode (b64encode bs) = Inr bs"
proof -
  have "is_ascii (b64encode bs)"
    using b2a_base64_chars [of bs]
    by (simp add: is_ascii_def b64encode_def list_all_iff word_less_nat_alt)
  moreover have "map of_nat (b64encode bs) = b2a_base64 bs"
    by (simp add: b64encode_def comp_def)
  ultimately show ?thesis
    by (simp add: b64decode_ascii a2b_base64_def loop_b2a_base64)
qed

text \<open>Characters the table rejects leave every variable of the loop as it is.\<close>

lemma loop_filter:
  "a2b_base64_loop (filter (\<lambda>c. c = BASE64_PAD \<or> table_a2b_base64 c < 64) s) q l p acc
     = a2b_base64_loop s q l p acc"
  by (induction s arbitrary: q l p acc) (simp_all add: Let_def not_less)

lemma loop_error: "a2b_base64_loop s q l p acc = Inl e \<Longrightarrow> \<exists>m. e = BinasciiError m"
  by (induction s q l p acc rule: a2b_base64_loop.induct)
     (auto simp: Let_def split: if_splits)

lemma kept_bytes:
  assumes "is_ascii s"
  shows "map of_nat (filter base64_or_pad s)
       = filter (\<lambda>c. c = BASE64_PAD \<or> table_a2b_base64 c < 64) (map of_nat s)"
proof -
  have "filter ((\<lambda>c. c = BASE64_PAD \<or> table_a2b_base64 c < 64) \<circ> of_nat) s
      = filter base64_or_pad s"
  proof (rule filter_cong [OF refl])
    fix c assume "c \<in> set s"
    with assms have c: "c < 128" by (simp add: is_ascii_def list_all_iff)
    have "table_a2b_base64 BASE64_PAD < 64"
      by (simp add: table_a2b_base64_def BASE64_PAD_def)
    then show "((\<lambda>c. c = BASE64_PAD \<or> table_a2b_base64 c < 64) \<circ> of_nat) c = base64_or_pad c"
      using alphabet_iff_table [OF c] pad_iff_61 [OF c] by (auto simp: base64_or_pad_def)
  qed
  then show ?thesis by (simp add: filter_map)
qed

lemma is_ascii_filter: "is_ascii s \<Longrightarrow> is_ascii (filter P s)"
  by (simp add: is_ascii_def list_all_iff)

lemma b64decode_filter:
  assumes "is_ascii s"
  shows "b64decode (filter base64_or_pad s) = b64decode s"
  using assms
  by (simp add: b64decode_ascii is_ascii_filter kept_bytes a2b_base64_def loop_filter)

subsection \<open>Padding\<close>

lemma pads_ignored:
  "q < 2 \<Longrightarrow>
   a2b_base64_loop (replicate k BASE64_PAD) q l p acc = a2b_base64_loop [] q l p acc"
  by (induction k) simp_all

lemma pads_after:
  assumes "q < 4"
  shows "isl (a2b_base64_loop (replicate k BASE64_PAD) q l 0 acc) = padding_invalid q k"
proof -
  consider "q = 0" | "q = 1" | "q = 2" | "q = 3"
    using assms by arith
  then show ?thesis
  proof cases
    case 1
    then show ?thesis by (simp add: pads_ignored padding_invalid_def)
  next
    case 2
    then show ?thesis by (simp add: pads_ignored padding_invalid_def)
  next
    case 3
    consider "k = 0" | "k = 1" | k' where "k = Suc (Suc k')"
      by (cases k rule: nat.exhaust; simp) (metis nat.exhaust)
    then show ?thesis
      using 3 by cases (simp_all add: padding_invalid_def)
  next
    case 4
    then show ?thesis by (cases k) (simp_all add: padding_invalid_def)
  qed
qed

lemma padding_invalid_mod: "padding_invalid (a mod 4 + n) k = padding_invalid (a + n) k"
  by (simp add: padding_invalid_def mod_simps)

lemma body_then_pads:
  assumes "BASE64_PAD \<notin> set d" "q < 4"
  shows "isl (a2b_base64_loop (d @ replicate k BASE64_PAD) q l 0 acc)
       = padding_invalid (q + length (filter (\<lambda>c. table_a2b_base64 c < 64) d)) k"
  using assms
proof (induction d arbitrary: q l acc)
  case Nil
  then show ?case by (simp add: pads_after)
next
  case (Cons c d)
  let ?n = "length (filter (\<lambda>c. table_a2b_base64 c < 64) d)"
  let ?rest = "d @ replicate k BASE64_PAD"
  from Cons.prems have cne: "c \<noteq> BASE64_PAD" and d: "BASE64_PAD \<notin> set d"
    by auto
  show ?case
  proof (cases "table_a2b_base64 c < 64")
    case False
    then have "a2b_base64_loop (c # ?rest) q l 0 acc = a2b_base64_loop ?rest q l 0 acc"
      using cne by (simp add: Let_def not_less)
    with False Cons.IH [OF d Cons.prems(2)] show ?thesis by simp
  next
    case True
    then have t: "\<not> 64 \<le> table_a2b_base64 c"
      by (simp add: not_le)
    have "\<exists>l' acc'. a2b_base64_loop (c # ?rest) q l 0 acc
            = a2b_base64_loop ?rest (Suc q mod 4) l' 0 acc'"
    proof -
      consider "q = 0" | "q = 1" | "q = 2" | "q = 3"
        using Cons.prems(2) by arith
      then show ?thesis
        using cne t
        by cases (simp_all add: Let_def numeral_2_eq_2 [symmetric], blast+)
    qed
    then obtain l' acc' where
      "a2b_base64_loop (c # ?rest) q l 0 acc = a2b_base64_loop ?rest (Suc q mod 4) l' 0 acc'"
      by blast
    moreover have "isl (a2b_base64_loop ?rest (Suc q mod 4) l' 0 acc')
                     = padding_invalid (Suc q mod 4 + ?n) k"
      by (rule Cons.IH [OF d]) simp
    ultimately show ?thesis
      using True by (simp add: padding_invalid_mod)
  qed
qed

text \<open>The same for a text: a body without \<open>=\<close>, then \<open>k\<close> characters \<open>=\<close>.\<close>

lemma b64decode_body_then_pads:
  assumes "is_ascii d" "61 \<notin> set d"
  shows "isl (b64decode (d @ replicate k 61))
       = padding_invalid (length (filter base64_alphabet d)) k"
proof -
  have in_d: "c < 128 \<and> c \<noteq> 61" if "c \<in> set d" for c
    using that assms by (auto simp: is_ascii_def list_all_iff)
  have ascii: "is_ascii (d @ replicate k 61)"
    using assms(1) by (auto simp: is_ascii_def list_all_iff)
  have bytes: "map of_nat (d @ replicate k 61) = map of_nat d @ replicate k BASE64_PAD"
    by (simp add: BASE64_PAD_def)
  have nopad: "BASE64_PAD \<notin> set (map of_nat d)"
  proof
    assume "BASE64_PAD \<in> set (map of_nat d)"
    then obtain c where "c \<in> set d" "word_of_nat c = BASE64_PAD"
      by auto
    with in_d [of c] pad_iff_61 [of c] show False
      by simp
  qed
  have "filter ((\<lambda>c. table_a2b_base64 c < 64) \<circ> of_nat) d = filter base64_alphabet d"
  proof (rule filter_cong [OF refl])
    fix c assume "c \<in> set d"
    then have c: "c < 128" "c \<noteq> 61" using in_d by auto
    then show "((\<lambda>c. table_a2b_base64 c < 64) \<circ> of_nat) c = base64_alphabet c"
      using alphabet_iff_table [of c] pad_iff_61 [of c] by simp
  qed
  then have count: "length (filter (\<lambda>c. table_a2b_base64 c < 64) (map of_nat d))
                  = length (filter base64_alphabet d)"
    by (simp add: filter_map)
  have "isl (a2b_base64_loop (map of_nat d @ replicate k BASE64_PAD) 0 0 0 [])
      = padding_invalid (0 + length (filter (\<lambda>c. table_a2b_base64 c < 64) (map of_nat d))) k"
    by (rule body_then_pads [OF nopad]) simp
  then show ?thesis
    unfolding b64decode_ascii [OF ascii] bytes a2b_base64_def count by simp
qed

lemma b64decode_error:
  "b64decode s = Inl e \<Longrightarrow> e = ValueError \<and> \<not> is_ascii s \<or> (\<exists>m. e = BinasciiError m) \<and> is_ascii s"
  by (cases "is_ascii s")
     (auto simp: b64decode_ascii b64decode_not_ascii a2b_base64_def dest: loop_error)

subsection \<open>Padding in general\<close>

lemma not_alphabet_61: "\<not> base64_alphabet 61"
  by (simp add: base64_alphabet_def)

lemma ndata_simps:
  "ndata [] = 0"
  "ndata (61 # s) = ndata s"
  "base64_alphabet c \<Longrightarrow> ndata (c # s) = Suc (ndata s)"
  by (simp_all add: ndata_def not_alphabet_61)

lemma padded_group_Nil: "\<not> padded_group q []"
  by (simp add: padded_group_def)

lemma padded_group_data:
  assumes "base64_alphabet c"
  shows "padded_group q (c # s) = padded_group (Suc q) s"
proof -
  have c: "c \<noteq> 61" using assms not_alphabet_61 by auto
  have one: "(\<exists>u v. c # s = u @ 61 # v \<and> (q + ndata u) mod 4 = k)
           = (\<exists>u v. s = u @ 61 # v \<and> (Suc q + ndata u) mod 4 = k)" for k
  proof
    assume "\<exists>u v. c # s = u @ 61 # v \<and> (q + ndata u) mod 4 = k"
    then obtain u v where uv: "c # s = u @ 61 # v" "(q + ndata u) mod 4 = k" by blast
    with c obtain u' where u': "u = c # u'" "s = u' @ 61 # v"
      by (cases u) auto
    with uv assms have "(Suc q + ndata u') mod 4 = k" by (simp add: ndata_simps)
    with u' show "\<exists>u v. s = u @ 61 # v \<and> (Suc q + ndata u) mod 4 = k" by blast
  next
    assume "\<exists>u v. s = u @ 61 # v \<and> (Suc q + ndata u) mod 4 = k"
    then obtain u v where "s = u @ 61 # v" "(Suc q + ndata u) mod 4 = k" by blast
    with assms have "c # s = (c # u) @ 61 # v \<and> (q + ndata (c # u)) mod 4 = k"
      by (simp add: ndata_simps)
    then show "\<exists>u v. c # s = u @ 61 # v \<and> (q + ndata u) mod 4 = k" by blast
  qed
  have two: "(\<exists>u v. c # s = u @ 61 # 61 # v \<and> (q + ndata u) mod 4 = k)
           = (\<exists>u v. s = u @ 61 # 61 # v \<and> (Suc q + ndata u) mod 4 = k)" for k
  proof
    assume "\<exists>u v. c # s = u @ 61 # 61 # v \<and> (q + ndata u) mod 4 = k"
    then obtain u v where uv: "c # s = u @ 61 # 61 # v" "(q + ndata u) mod 4 = k" by blast
    with c obtain u' where u': "u = c # u'" "s = u' @ 61 # 61 # v"
      by (cases u) auto
    with uv assms have "(Suc q + ndata u') mod 4 = k" by (simp add: ndata_simps)
    with u' show "\<exists>u v. s = u @ 61 # 61 # v \<and> (Suc q + ndata u) mod 4 = k" by blast
  next
    assume "\<exists>u v. s = u @ 61 # 61 # v \<and> (Suc q + ndata u) mod 4 = k"
    then obtain u v where "s = u @ 61 # 61 # v" "(Suc q + ndata u) mod 4 = k" by blast
    with assms have "c # s = (c # u) @ 61 # 61 # v \<and> (q + ndata (c # u)) mod 4 = k"
      by (simp add: ndata_simps)
    then show "\<exists>u v. c # s = u @ 61 # 61 # v \<and> (q + ndata u) mod 4 = k" by blast
  qed
  show ?thesis unfolding padded_group_def one two ..
qed

lemma padded_group_pad:
  "padded_group q (61 # s)
     = (q mod 4 = 3 \<or> (q mod 4 = 2 \<and> (\<exists>v. s = 61 # v)) \<or> padded_group q s)"
proof -
  have one: "(\<exists>u v. 61 # s = u @ 61 # v \<and> (q + ndata u) mod 4 = 3)
           = (q mod 4 = 3 \<or> (\<exists>u v. s = u @ 61 # v \<and> (q + ndata u) mod 4 = 3))"
  proof
    assume "\<exists>u v. 61 # s = u @ 61 # v \<and> (q + ndata u) mod 4 = 3"
    then obtain u v where uv: "61 # s = u @ 61 # v" "(q + ndata u) mod 4 = 3" by blast
    show "q mod 4 = 3 \<or> (\<exists>u v. s = u @ 61 # v \<and> (q + ndata u) mod 4 = 3)"
    proof (cases u)
      case Nil
      with uv show ?thesis by (simp add: ndata_simps)
    next
      case (Cons x u')
      with uv have "x = 61" "s = u' @ 61 # v" by auto
      with uv Cons show ?thesis by (auto simp: ndata_simps)
    qed
  next
    assume "q mod 4 = 3 \<or> (\<exists>u v. s = u @ 61 # v \<and> (q + ndata u) mod 4 = 3)"
    then show "\<exists>u v. 61 # s = u @ 61 # v \<and> (q + ndata u) mod 4 = 3"
    proof
      assume "q mod 4 = 3"
      then have "61 # s = [] @ 61 # s \<and> (q + ndata []) mod 4 = 3" by (simp add: ndata_simps)
      then show ?thesis by blast
    next
      assume "\<exists>u v. s = u @ 61 # v \<and> (q + ndata u) mod 4 = 3"
      then obtain u v where "s = u @ 61 # v" "(q + ndata u) mod 4 = 3" by blast
      then have "61 # s = (61 # u) @ 61 # v \<and> (q + ndata (61 # u)) mod 4 = 3"
        by (simp add: ndata_simps)
      then show ?thesis by blast
    qed
  qed
  have two: "(\<exists>u v. 61 # s = u @ 61 # 61 # v \<and> (q + ndata u) mod 4 = 2)
           = ((q mod 4 = 2 \<and> (\<exists>v. s = 61 # v))
              \<or> (\<exists>u v. s = u @ 61 # 61 # v \<and> (q + ndata u) mod 4 = 2))"
  proof
    assume "\<exists>u v. 61 # s = u @ 61 # 61 # v \<and> (q + ndata u) mod 4 = 2"
    then obtain u v where uv: "61 # s = u @ 61 # 61 # v" "(q + ndata u) mod 4 = 2" by blast
    show "(q mod 4 = 2 \<and> (\<exists>v. s = 61 # v))
              \<or> (\<exists>u v. s = u @ 61 # 61 # v \<and> (q + ndata u) mod 4 = 2)"
    proof (cases u)
      case Nil
      with uv show ?thesis by (simp add: ndata_simps)
    next
      case (Cons x u')
      with uv have "x = 61" "s = u' @ 61 # 61 # v" by auto
      with uv Cons show ?thesis by (auto simp: ndata_simps)
    qed
  next
    assume "(q mod 4 = 2 \<and> (\<exists>v. s = 61 # v))
              \<or> (\<exists>u v. s = u @ 61 # 61 # v \<and> (q + ndata u) mod 4 = 2)"
    then show "\<exists>u v. 61 # s = u @ 61 # 61 # v \<and> (q + ndata u) mod 4 = 2"
    proof
      assume "q mod 4 = 2 \<and> (\<exists>v. s = 61 # v)"
      then obtain v where "q mod 4 = 2" "s = 61 # v" by blast
      then have "61 # s = [] @ 61 # 61 # v \<and> (q + ndata []) mod 4 = 2"
        by (simp add: ndata_simps)
      then show ?thesis by blast
    next
      assume "\<exists>u v. s = u @ 61 # 61 # v \<and> (q + ndata u) mod 4 = 2"
      then obtain u v where "s = u @ 61 # 61 # v" "(q + ndata u) mod 4 = 2" by blast
      then have "61 # s = (61 # u) @ 61 # 61 # v \<and> (q + ndata (61 # u)) mod 4 = 2"
        by (simp add: ndata_simps)
      then show ?thesis by blast
    qed
  qed
  show ?thesis unfolding padded_group_def one two by blast
qed

lemma padded_group_mod: "padded_group (q mod 4) s = padded_group q s"
  by (simp add: padded_group_def mod_simps)

lemma loop_data_step:
  assumes "x \<noteq> BASE64_PAD" "table_a2b_base64 x < 64" "q < 4"
  shows "\<exists>l' acc'. a2b_base64_loop (x # rest) q l p acc
           = a2b_base64_loop rest (Suc q mod 4) l' 0 acc'"
proof -
  have t: "\<not> 64 \<le> table_a2b_base64 x"
    using assms(2) by (simp add: not_le)
  consider "q = 0" | "q = 1" | "q = 2" | "q = 3"
    using assms(3) by arith
  then show ?thesis
    using assms(1) t
    by cases (simp_all add: Let_def numeral_2_eq_2 [symmetric], blast+)
qed

lemma alphabet_ascii: "base64_alphabet c \<Longrightarrow> c < 128"
  by (auto simp: base64_alphabet_def)

lemma loop_pad_step:
  "q < 4 \<Longrightarrow>
   a2b_base64_loop (BASE64_PAD # rest) q l p acc
     = (if q = 3 \<or> (q = 2 \<and> 1 \<le> p) then Inr acc
        else if q = 2 then a2b_base64_loop rest 2 l (p + 1) acc
        else a2b_base64_loop rest q l p acc)"
  by auto

lemma loop_kept:
  assumes "list_all base64_or_pad s" "q < 4"
  shows "(\<not> isl (a2b_base64_loop (map of_nat s) q l p acc))
       = ((q + ndata s) mod 4 = 0 \<or> padded_group q s
          \<or> (q = 2 \<and> 1 \<le> p \<and> (\<exists>v. s = 61 # v)))"
  using assms
proof (induction s arbitrary: q l p acc)
  case Nil
  then show ?case by (auto simp: ndata_simps padded_group_Nil)
next
  case (Cons c s)
  from Cons.prems have s: "list_all base64_or_pad s" and c: "base64_or_pad c"
    by simp_all
  show ?case
  proof (cases "c = 61")
    case True
    then have pad: "map of_nat (c # s) = BASE64_PAD # map of_nat s"
      by (simp add: BASE64_PAD_def)
    consider "q = 3" | "q = 2" "1 \<le> p" | "q = 2" "p = 0" | "q < 2"
      using Cons.prems(2) by arith
    then show ?thesis
    proof cases
      case 1
      then have "a2b_base64_loop (map of_nat (c # s)) q l p acc = Inr acc"
        unfolding pad by (simp add: loop_pad_step del: a2b_base64_loop.simps)
      with 1 True show ?thesis by (simp add: padded_group_pad)
    next
      case 2
      then have "a2b_base64_loop (map of_nat (c # s)) q l p acc = Inr acc"
        unfolding pad by (simp add: loop_pad_step del: a2b_base64_loop.simps)
      with 2 True show ?thesis by simp
    next
      case 3
      then have "a2b_base64_loop (map of_nat (c # s)) q l p acc
               = a2b_base64_loop (map of_nat s) 2 l 1 acc"
        unfolding pad by (simp add: loop_pad_step del: a2b_base64_loop.simps)
      moreover have "(\<not> isl (a2b_base64_loop (map of_nat s) 2 l 1 acc))
        = ((2 + ndata s) mod 4 = 0 \<or> padded_group 2 s
            \<or> ((2::nat) = 2 \<and> 1 \<le> (1::nat) \<and> (\<exists>v. s = 61 # v)))"
        by (rule Cons.IH [OF s]) simp
      ultimately show ?thesis
        using 3 True by (simp add: ndata_simps padded_group_pad) blast
    next
      case 4
      then have "a2b_base64_loop (map of_nat (c # s)) q l p acc
               = a2b_base64_loop (map of_nat s) q l p acc"
        unfolding pad by (simp add: loop_pad_step del: a2b_base64_loop.simps)
      moreover note Cons.IH [OF s Cons.prems(2), of l p acc]
      ultimately show ?thesis
        using 4 True by (simp add: ndata_simps padded_group_pad)
    qed
  next
    case False
    with c have a: "base64_alphabet c"
      by (simp add: base64_or_pad_def)
    then have "c < 128" by (rule alphabet_ascii)
    with a False have x: "(word_of_nat c :: byte) \<noteq> BASE64_PAD"
      "table_a2b_base64 (word_of_nat c) < 64"
      using alphabet_iff_table [of c] by simp_all
    from loop_data_step [OF x Cons.prems(2), of "map of_nat s" l p acc] obtain l' acc' where
      "a2b_base64_loop (map of_nat (c # s)) q l p acc
         = a2b_base64_loop (map of_nat s) (Suc q mod 4) l' 0 acc'"
      unfolding list.map by blast
    moreover have "(\<not> isl (a2b_base64_loop (map of_nat s) (Suc q mod 4) l' 0 acc'))
       = ((Suc q mod 4 + ndata s) mod 4 = 0 \<or> padded_group (Suc q mod 4) s
          \<or> (Suc q mod 4 = 2 \<and> 1 \<le> (0::nat) \<and> (\<exists>v. s = 61 # v)))"
      by (rule Cons.IH [OF s]) simp
    ultimately show ?thesis
      using a False
      by (simp add: ndata_simps padded_group_data padded_group_mod mod_simps)
  qed
qed

lemma b64decode_fails_iff:
  assumes "is_ascii s"
  shows "isl (b64decode s) = (\<not> decodable (filter base64_or_pad s))"
proof -
  let ?f = "filter base64_or_pad s"
  have "b64decode s = b64decode ?f"
    by (rule b64decode_filter [OF assms, symmetric])
  also have "\<dots> = a2b_base64 (map of_nat ?f)"
    by (rule b64decode_ascii) (rule is_ascii_filter [OF assms])
  finally have "b64decode s = a2b_base64_loop (map of_nat ?f) 0 0 0 []"
    by (simp only: a2b_base64_def)
  moreover have "(\<not> isl (a2b_base64_loop (map of_nat ?f) 0 0 0 []))
       = ((0 + ndata ?f) mod 4 = 0 \<or> padded_group 0 ?f
          \<or> (0 = (2::nat) \<and> 1 \<le> (0::nat) \<and> (\<exists>v. ?f = 61 # v)))"
    by (rule loop_kept) (simp_all add: list_all_iff)
  ultimately show ?thesis
    unfolding decodable_def by auto
qed

subsection \<open>An encoding followed by more characters\<close>

lemma loop_last_two_bytes_then:
  assumes "s1 < 64" "s2 < 64" "s3 < 64"
  shows "a2b_base64_loop
           (table_b2a_base64 s1 # table_b2a_base64 s2 # table_b2a_base64 s3 # BASE64_PAD # rest)
           0 l p acc
       = Inr (acc @ [push_bit 2 s1 OR drop_bit 4 s2, push_bit 4 (s2 AND 15) OR drop_bit 2 s3])"
  using assms by (simp add: table_a2b_b2a table_b2a_char Let_def not_le [symmetric])

lemma loop_last_byte_then:
  assumes "s1 < 64" "s2 < 64"
  shows "a2b_base64_loop
           (table_b2a_base64 s1 # table_b2a_base64 s2 # BASE64_PAD # BASE64_PAD # rest) 0 l p acc
       = Inr (acc @ [push_bit 2 s1 OR drop_bit 4 s2])"
  using assms by (simp add: table_a2b_b2a table_b2a_char Let_def not_le [symmetric])

lemma loop_b2a_base64_then:
  "length bs mod 3 \<noteq> 0 \<Longrightarrow>
   a2b_base64_loop (b2a_base64 bs @ rest) 0 l p acc = Inr (acc @ bs)"
proof (induction bs arbitrary: l p acc rule: b2a_base64.induct)
  case (1 a b c bs)
  from "1.prems" have "length bs mod 3 \<noteq> 0" by (simp add: mod_Suc split: if_splits)
  from "1.IH" [OF this] show ?case
    by (simp only: b2a_base64.simps append_Cons append_Nil append_assoc
          loop_full_group [OF sextet1_less sextet2_less sextet3_less sextet4_less]
          byte1_of_sextets byte2_of_sextets byte3_of_sextets)
next
  case (2 a b)
  show ?case
    by (simp only: b2a_base64.simps append_Cons append_Nil
          loop_last_two_bytes_then [OF sextet1_less sextet2_less sextet3_last_less]
          byte1_of_sextets byte2_of_last_sextets)
next
  case (3 a)
  show ?case
    by (simp only: b2a_base64.simps append_Cons append_Nil
          loop_last_byte_then [OF sextet1_less sextet2_last_less]
          byte1_of_last_sextets)
next
  case 4
  then show ?case by simp
qed

lemma b2a_table_alphabet:
  "list_all (\<lambda>c. base64_alphabet (unat c))
     (bytes_of ''ABCDEFGHIJKLMNOPQRSTUVWXYZabcdefghijklmnopqrstuvwxyz0123456789+/'')"
  by (simp add: bytes_of_def base64_alphabet_def)

lemma table_b2a_kept: "i < 64 \<Longrightarrow> base64_or_pad (unat (table_b2a_base64 i))"
proof -
  assume "i < 64"
  then have "unat i < 64" by (simp add: word_less_nat_alt)
  with b2a_table_alphabet b2a_table_length show ?thesis
    unfolding table_b2a_base64_def base64_or_pad_def by (simp add: list_all_length)
qed

lemma pad_kept: "base64_or_pad (unat BASE64_PAD)"
  by (simp add: base64_or_pad_def BASE64_PAD_def)

lemma b2a_base64_kept: "list_all (\<lambda>c. base64_or_pad (unat c)) (b2a_base64 bs)"
  by (induction bs rule: b2a_base64.induct)
     (simp_all only: b2a_base64.simps list.pred_inject list_all_append append.simps
        table_b2a_kept [OF sextet1_less] table_b2a_kept [OF sextet2_less]
        table_b2a_kept [OF sextet3_less] table_b2a_kept [OF sextet4_less]
        table_b2a_kept [OF sextet2_last_less] table_b2a_kept [OF sextet3_last_less]
        pad_kept simp_thms)

lemma filter_b64encode: "filter base64_or_pad (b64encode bs) = b64encode bs"
  using b2a_base64_kept [of bs] by (simp add: b64encode_def list_all_iff)

lemma b64encode_length: "length (b64encode bs) mod 4 = 0"
  unfolding b64encode_def length_map
  by (induction bs rule: b2a_base64.induct) simp_all

lemma kept_not_space: "base64_or_pad c \<Longrightarrow> \<not> isspace c"
  by (auto simp: base64_or_pad_def base64_alphabet_def isspace_def)

lemma strip_kept: "strip (filter base64_or_pad s) = filter base64_or_pad s"
  by (rule strip_no_space) (simp add: list_all_iff kept_not_space)

lemma strip_leading_space:
  assumes "list_all isspace ws"
  shows "strip (ws @ s) = strip s"
proof -
  have "dropWhile isspace (ws @ s) = dropWhile isspace s"
    using assms by (intro dropWhile_append2) (simp add: list_all_iff)
  then show ?thesis by (simp only: strip_def)
qed

lemma strip_surrounded:
  assumes "list_all isspace ws1" "list_all isspace ws2"
  shows "strip (ws1 @ b64encode bs @ ws2) = b64encode bs"
proof -
  have "strip (ws1 @ b64encode bs @ ws2) = strip ((ws1 @ b64encode bs) @ ws2)"
    by simp
  also have "\<dots> = strip (ws1 @ b64encode bs)"
    by (rule strip_trailing_space [OF assms(2)])
  also have "\<dots> = strip (b64encode bs)"
    by (rule strip_leading_space [OF assms(1)])
  finally show ?thesis by (simp only: strip_b64encode)
qed

lemma b64decode_encoding_then:
  assumes "is_ascii s" and "filter base64_or_pad s = b64encode bs @ rest"
    and "rest = [] \<or> length bs mod 3 \<noteq> 0"
  shows "b64decode s = Inr bs"
proof -
  let ?f = "filter base64_or_pad s"
  have "b64decode s = b64decode ?f"
    by (rule b64decode_filter [OF assms(1), symmetric])
  also have "\<dots> = a2b_base64 (map of_nat ?f)"
    by (rule b64decode_ascii) (rule is_ascii_filter [OF assms(1)])
  also have "map of_nat ?f = b2a_base64 bs @ map of_nat rest"
    unfolding assms(2) by (simp add: b64encode_def comp_def)
  also have "a2b_base64 (b2a_base64 bs @ map of_nat rest) = Inr bs"
  proof (cases "rest = []")
    case True
    then show ?thesis by (simp add: a2b_base64_def loop_b2a_base64)
  next
    case False
    with assms(3) have "length bs mod 3 \<noteq> 0" by simp
    then show ?thesis by (simp add: a2b_base64_def loop_b2a_base64_then)
  qed
  finally show ?thesis .
qed

lemma excess_padding_not_encoding: "length t mod 4 \<noteq> 0 \<Longrightarrow> b64encode B \<noteq> t"
  using b64encode_length [of B] by auto

section \<open>Properties of the script\<close>

subsection \<open>The five ways a run can go\<close>

lemma run_Absent: "input_file w = Absent \<Longrightarrow> run w = (Inl FileNotFoundError, w)"
  by (simp add: run_def open_read_def)

lemma run_Unreadable: "input_file w = Unreadable \<Longrightarrow> run w = (Inl InputUnreadable, w)"
  by (simp add: run_def open_read_def)

lemma run_not_openable:
  "input_file w = Contents t \<Longrightarrow> \<not> output_openable w \<Longrightarrow> run w = (Inl OutputUnwritable, w)"
  by (simp add: run_def open_read_def open_wb_def)

lemma run_decode_error:
  "input_file w = Contents t \<Longrightarrow> output_openable w \<Longrightarrow> b64decode (strip t) = Inl e \<Longrightarrow>
   run w = (Inl e, w\<lparr>output_file := Some []\<rparr>)"
  by (simp add: run_def open_read_def open_wb_def)

lemma run_decoded:
  "input_file w = Contents t \<Longrightarrow> output_openable w \<Longrightarrow> b64decode (strip t) = Inr decoded \<Longrightarrow>
   run w = (Inr (), w\<lparr>output_file := Some decoded,
                       stdout := stdout w @ [''ZIP file created successfully: GhanaVoiceLedger.zip'']\<rparr>)"
  by (simp add: run_def open_read_def open_wb_def file_write_def print_def)

lemma run_cases:
  obtains (absent) "input_file w = Absent" "run w = (Inl FileNotFoundError, w)"
  | (unreadable) "input_file w = Unreadable" "run w = (Inl InputUnreadable, w)"
  | (unwritable) t where "input_file w = Contents t" "\<not> output_openable w"
      "run w = (Inl OutputUnwritable, w)"
  | (decode_error) t e where "input_file w = Contents t" "output_openable w"
      "b64decode (strip t) = Inl e" "run w = (Inl e, w\<lparr>output_file := Some []\<rparr>)"
  | (decoded) t decoded where "input_file w = Contents t" "output_openable w"
      "b64decode (strip t) = Inr decoded"
      "run w = (Inr (), w\<lparr>output_file := Some decoded,
                       stdout := stdout w @ [''ZIP file created successfully: GhanaVoiceLedger.zip'']\<rparr>)"
proof (cases "input_file w")
  case Absent
  then show ?thesis using absent run_Absent by blast
next
  case Unreadable
  then show ?thesis using unreadable run_Unreadable by blast
next
  case (Contents t)
  show ?thesis
  proof (cases "output_openable w")
    case False
    with Contents show ?thesis using unwritable run_not_openable by blast
  next
    case True
    show ?thesis
    proof (cases "b64decode (strip t)")
      case (Inl e)
      with Contents True show ?thesis using decode_error run_decode_error by blast
    next
      case (Inr decoded)
      with Contents True show ?thesis using decoded run_decoded by blast
    qed
  qed
qed

lemma run_filtered:
  assumes "input_file w = Contents t" and "is_ascii (strip t)"
  shows "fst (run (w\<lparr>input_file := Contents (filter base64_or_pad (strip t))\<rparr>)) = fst (run w)
       \<and> output_file (snd (run (w\<lparr>input_file := Contents (filter base64_or_pad (strip t))\<rparr>)))
           = output_file (snd (run w))"
proof -
  let ?f = "filter base64_or_pad (strip t)"
  have d: "b64decode (strip ?f) = b64decode (strip t)"
    by (simp only: strip_kept b64decode_filter [OF assms(2)])
  then show ?thesis
    using assms(1)
    by (simp add: run_def open_read_def open_wb_def file_write_def print_def
          split: sum.splits)
qed

lemmas evaluation =
  run_def open_read_def open_wb_def file_write_def print_def strip_def isspace_def
  text_of_def bytes_of_def b64decode_def bytes_from_decode_data_def is_ascii_def
  a2b_base64_def BASE64_PAD_def table_a2b_base64_def world_with_def

subsection \<open>What a successful run writes\<close>

text \<open>
  Claim C1 says that after every successful run the output file holds exactly the base64
  decoding of the trimmed text, with nothing filtered. The run on \<open>aGVs bG8=\<close>, a text
  with a space inside, succeeds and writes \<open>hello\<close>, and \<open>hello\<close> is not the decoding
  of that text: its encoding is \<open>aGVsbG8=\<close>. The decode step has dropped the space.
\<close>

theorem output_is_strict_decoding_counterexample:
  "run (world_with (Contents (text_of ''aGVs bG8='')) None)
     = (Inr (), \<lparr>input_file = Contents (text_of ''aGVs bG8=''),
                 output_file = Some (bytes_of ''hello''), output_openable = True,
                 stdout = [''ZIP file created successfully: GhanaVoiceLedger.zip'']\<rparr>)
   \<and> strip (text_of ''aGVs bG8='') = text_of ''aGVs bG8=''
   \<and> b64encode (bytes_of ''hello'') = text_of ''aGVsbG8=''
   \<and> \<not> base64_decoding (text_of ''aGVs bG8='') (bytes_of ''hello'')"
  by (simp add: evaluation base64_decoding_def b64encode_def table_b2a_base64_def)

text \<open>
  Claim C1, as the script has it. For every run that succeeds, the input file held a text
  whose trimmed form, the text without the whitespace before and after it, is ASCII, and
  the output file holds exactly the bytes the decode step returns for the trimmed text,
  whatever it held before. These bytes are \<open>B\<close> whenever
  the characters of the trimmed text that are in the alphabet or \<open>=\<close> are the encoding of
  \<open>B\<close>, alone or, if that encoding ends in \<open>=\<close>, followed by anything; in particular
  whenever the input text is the encoding of \<open>B\<close> with whitespace around it.
\<close>

theorem run_success_output_is_decoding:
  assumes "run w = (Inr (), w')"
  shows "\<exists>t decoded ws1 ws2.
           input_file w = Contents t
           \<and> t = ws1 @ strip t @ ws2 \<and> list_all isspace ws1 \<and> list_all isspace ws2
           \<and> (strip t = [] \<or> (\<not> isspace (hd (strip t)) \<and> \<not> isspace (last (strip t))))
           \<and> is_ascii (strip t)
           \<and> b64decode (strip t) = Inr decoded \<and> output_file w' = Some decoded
           \<and> (\<forall>B rest. filter base64_or_pad (strip t) = b64encode B @ rest
                          \<and> (rest = [] \<or> length B mod 3 \<noteq> 0) \<longrightarrow> decoded = B)
           \<and> (\<forall>B pre post. t = pre @ b64encode B @ post
                          \<and> list_all isspace pre \<and> list_all isspace post \<longrightarrow> decoded = B)"
proof (cases w rule: run_cases)
  case (decoded t decoded)
  have ascii: "is_ascii (strip t)"
    using decoded(3) b64decode_not_ascii [of "strip t"] by auto
  have a: "decoded = B"
    if "filter base64_or_pad (strip t) = b64encode B @ rest \<and> (rest = [] \<or> length B mod 3 \<noteq> 0)"
    for B rest
    using b64decode_encoding_then [OF ascii, of B rest] that decoded(3) by simp
  have b: "decoded = B"
    if "t = pre @ b64encode B @ post \<and> list_all isspace pre \<and> list_all isspace post"
    for B pre post
  proof -
    from that have "strip t = b64encode B"
      by (simp add: strip_surrounded)
    then have "filter base64_or_pad (strip t) = b64encode B @ []"
      by (simp add: filter_b64encode)
    then show ?thesis using a [of B "[]"] by simp
  qed
  from strip_is_trimmed [of t] obtain ws1 ws2 where
    "t = ws1 @ strip t @ ws2" "list_all isspace ws1" "list_all isspace ws2"
    "strip t = [] \<or> (\<not> isspace (hd (strip t)) \<and> \<not> isspace (last (strip t)))"
    by blast
  moreover from decoded(4) assms have "output_file w' = Some decoded"
    by auto
  ultimately show ?thesis
    using decoded(1,3) ascii a b by blast
qed (use assms in auto)

theorem run_success_output_is_decoding_witness:
  "run (world_with (Contents (32 # text_of ''aG!Vs bG8=='' @ [10])) (Some [1, 2, 3]))
     = (Inr (),
        \<lparr>input_file = Contents (32 # text_of ''aG!Vs bG8=='' @ [10]),
         output_file = Some (bytes_of ''hello''), output_openable = True,
         stdout = [''ZIP file created successfully: GhanaVoiceLedger.zip'']\<rparr>)
   \<and> filter base64_or_pad (strip (32 # text_of ''aG!Vs bG8=='' @ [10]))
       = b64encode (bytes_of ''hello'') @ [61]
   \<and> length (bytes_of ''hello'') mod 3 \<noteq> 0
   \<and> (\<exists>decoded. b64decode (strip (32 # text_of ''aG!Vs bG8=='' @ [10])) = Inr decoded
         \<and> decoded = bytes_of ''hello'')"
proof -
  let ?t = "32 # text_of ''aG!Vs bG8=='' @ [10]"
  let ?w' = "\<lparr>input_file = Contents ?t,
         output_file = Some (bytes_of ''hello''), output_openable = True,
         stdout = [''ZIP file created successfully: GhanaVoiceLedger.zip'']\<rparr>"
  have r: "run (world_with (Contents ?t) (Some [1, 2, 3])) = (Inr (), ?w')"
    by (simp add: evaluation)
  have f: "filter base64_or_pad (strip ?t) = b64encode (bytes_of ''hello'') @ [61]"
    by (simp add: strip_def isspace_def text_of_def bytes_of_def base64_or_pad_def
          base64_alphabet_def b64encode_def table_b2a_base64_def BASE64_PAD_def)
  have l: "length (bytes_of ''hello'') mod 3 \<noteq> 0"
    by (simp add: bytes_of_def)
  from run_success_output_is_decoding [OF r] obtain t decoded where
    t: "input_file (world_with (Contents ?t) (Some [1, 2, 3])) = Contents t"
    and d: "b64decode (strip t) = Inr decoded"
    and a: "\<forall>B rest. filter base64_or_pad (strip t) = b64encode B @ rest
                          \<and> (rest = [] \<or> length B mod 3 \<noteq> 0) \<longrightarrow> decoded = B"
    by blast
  from t have "t = ?t" by (simp add: world_with_def)
  with a f l have "decoded = bytes_of ''hello''" by blast
  with d \<open>t = ?t\<close> r f l show ?thesis by blast
qed

subsection \<open>Malformed input\<close>

text \<open>
  Claim C2 says that decoding is strict: a character outside the alphabet in the trimmed
  text, or an invalid padding length, makes the run fail. The script calls \<open>b64decode\<close>
  without \<open>validate\<close>. The run on \<open>aGVsbG8=!\<close> succeeds and writes \<open>hello\<close>; so does
  the run on \<open>aGVsbG8==\<close>, a text of 9 characters with one \<open>=\<close> too many, and the run
  on \<open>aGVs=\<close>, where \<open>=\<close> follows a full group, writes \<open>hel\<close>. An encoding has a length
  that is a multiple of 4, so the last two texts are the encoding of nothing.
\<close>

theorem strict_decoding_counterexample:
  "\<not> base64_or_pad (of_char CHR ''!'')
   \<and> strip (text_of ''aGVsbG8=!'') = text_of ''aGVsbG8=!''
   \<and> run (world_with (Contents (text_of ''aGVsbG8=!'')) None)
       = (Inr (), \<lparr>input_file = Contents (text_of ''aGVsbG8=!''),
                   output_file = Some (bytes_of ''hello''), output_openable = True,
                   stdout = [''ZIP file created successfully: GhanaVoiceLedger.zip'']\<rparr>)
   \<and> strip (text_of ''aGVsbG8=='') = text_of ''aGVsbG8==''
   \<and> list_all base64_or_pad (text_of ''aGVsbG8=='')
   \<and> length (text_of ''aGVsbG8=='') mod 4 = 1
   \<and> run (world_with (Contents (text_of ''aGVsbG8=='')) None)
       = (Inr (), \<lparr>input_file = Contents (text_of ''aGVsbG8==''),
                   output_file = Some (bytes_of ''hello''), output_openable = True,
                   stdout = [''ZIP file created successfully: GhanaVoiceLedger.zip'']\<rparr>)
   \<and> strip (text_of ''aGVs='') = text_of ''aGVs=''
   \<and> list_all base64_or_pad (text_of ''aGVs='')
   \<and> length (text_of ''aGVs='') mod 4 = 1
   \<and> run (world_with (Contents (text_of ''aGVs='')) None)
       = (Inr (), \<lparr>input_file = Contents (text_of ''aGVs=''),
                   output_file = Some (bytes_of ''hel''), output_openable = True,
                   stdout = [''ZIP file created successfully: GhanaVoiceLedger.zip'']\<rparr>)"
  by (simp add: evaluation base64_or_pad_def base64_alphabet_def)

text \<open>
  Claim C2, as the script has it. Let the kept characters of a text be those in the
  alphabet or \<open>=\<close>. The run fails for every input whose trimmed text holds a character
  that is not ASCII, and for every input whose trimmed text is ASCII with an invalid
  padding: among its kept characters the alphabet characters do not fill whole groups of 4
  and no group is closed by padding. When the output file can be opened these are the only
  failures, \<open>ValueError\<close> for the first kind and \<open>binascii.Error\<close> for the second. ASCII
  characters outside the alphabet are discarded: the run on an ASCII trimmed text ends as
  the run on its kept characters does, with the same output file.
\<close>

theorem malformed_input_run_fails:
  assumes "input_file w = Contents t"
  shows "(\<not> is_ascii (strip t) \<or> \<not> decodable (filter base64_or_pad (strip t))
            \<longrightarrow> (\<exists>e. fst (run w) = Inl e))
       \<and> (output_openable w \<longrightarrow>
            ((fst (run w) = Inl ValueError) = (\<not> is_ascii (strip t)))
          \<and> ((\<exists>m. fst (run w) = Inl (BinasciiError m))
               = (is_ascii (strip t) \<and> \<not> decodable (filter base64_or_pad (strip t))))
          \<and> ((\<exists>e. fst (run w) = Inl e)
               = (\<not> is_ascii (strip t) \<or> \<not> decodable (filter base64_or_pad (strip t)))))
       \<and> (is_ascii (strip t) \<longrightarrow>
            fst (run (w\<lparr>input_file := Contents (filter base64_or_pad (strip t))\<rparr>)) = fst (run w)
          \<and> output_file (snd (run (w\<lparr>input_file := Contents (filter base64_or_pad (strip t))\<rparr>)))
              = output_file (snd (run w)))"
proof -
  let ?bad = "\<not> is_ascii (strip t) \<or> \<not> decodable (filter base64_or_pad (strip t))"
  have dec: "(case b64decode (strip t) of
                Inl e \<Rightarrow> ?bad \<and> (e = ValueError) = (\<not> is_ascii (strip t))
                          \<and> (\<exists>m. e = BinasciiError m) = is_ascii (strip t)
              | Inr decoded \<Rightarrow> \<not> ?bad)"
  proof (cases "is_ascii (strip t)")
    case False
    then show ?thesis by (simp add: b64decode_not_ascii)
  next
    case True
    show ?thesis
    proof (cases "b64decode (strip t)")
      case (Inl e)
      with b64decode_fails_iff [OF True] b64decode_error [OF Inl] True show ?thesis
        by auto
    next
      case (Inr decoded)
      with b64decode_fails_iff [OF True] True show ?thesis by auto
    qed
  qed
  have fails: "\<exists>e. fst (run w) = Inl e" if ?bad
  proof (cases "output_openable w")
    case False
    with run_not_openable [OF assms] show ?thesis by simp
  next
    case True
    from that dec obtain e where "b64decode (strip t) = Inl e"
      by (cases "b64decode (strip t)") auto
    from run_decode_error [OF assms True this] show ?thesis by simp
  qed
  have openable: "((fst (run w) = Inl ValueError) = (\<not> is_ascii (strip t)))
          \<and> ((\<exists>m. fst (run w) = Inl (BinasciiError m))
               = (is_ascii (strip t) \<and> \<not> decodable (filter base64_or_pad (strip t))))
          \<and> ((\<exists>e. fst (run w) = Inl e) = ?bad)"
    if o: "output_openable w"
  proof (cases "b64decode (strip t)")
    case (Inl e)
    from run_decode_error [OF assms o Inl] dec Inl show ?thesis by auto
  next
    case (Inr decoded)
    from run_decoded [OF assms o Inr] dec Inr show ?thesis by auto
  qed
  from fails openable run_filtered [OF assms] show ?thesis by blast
qed

theorem malformed_input_run_fails_witness:
  "fst (run (world_with (Contents (text_of ''aGVsbG8='' @ [233])) None)) = Inl ValueError
   \<and> \<not> is_ascii (strip (text_of ''aGVsbG8='' @ [233]))
   \<and> (\<exists>m. fst (run (world_with (Contents (text_of ''aG=V'')) None)) = Inl (BinasciiError m))
   \<and> \<not> decodable (filter base64_or_pad (strip (text_of ''aG=V'')))
   \<and> is_ascii (strip (text_of ''aGVsbG8=!''))
   \<and> filter base64_or_pad (strip (text_of ''aGVsbG8=!'')) = text_of ''aGVsbG8=''
   \<and> output_file (snd (run (world_with (Contents (text_of ''aGVsbG8='')) None)))
       = output_file (snd (run (world_with (Contents (text_of ''aGVsbG8=!'')) None)))"
proof -
  let ?w1 = "world_with (Contents (text_of ''aGVsbG8='' @ [233])) None"
  let ?w2 = "world_with (Contents (text_of ''aG=V'')) None"
  let ?w3 = "world_with (Contents (text_of ''aGVsbG8=!'')) None"
  have i1: "input_file ?w1 = Contents (text_of ''aGVsbG8='' @ [233])"
    and i2: "input_file ?w2 = Contents (text_of ''aG=V'')"
    and i3: "input_file ?w3 = Contents (text_of ''aGVsbG8=!'')"
    and o: "output_openable ?w1" "output_openable ?w2"
    by (simp_all add: world_with_def)
  have n1: "\<not> is_ascii (strip (text_of ''aGVsbG8='' @ [233]))"
    by (simp add: strip_def isspace_def text_of_def is_ascii_def)
  have a2: "is_ascii (strip (text_of ''aG=V''))"
    and a3: "is_ascii (strip (text_of ''aGVsbG8=!''))"
    by (simp_all add: strip_def isspace_def text_of_def is_ascii_def)
  have n2: "\<not> decodable (filter base64_or_pad (strip (text_of ''aG=V'')))"
    by (simp add: strip_def isspace_def text_of_def base64_or_pad_def base64_alphabet_def
          decodable_def ndata_def padded_group_data padded_group_pad padded_group_Nil)
  have f3: "filter base64_or_pad (strip (text_of ''aGVsbG8=!'')) = text_of ''aGVsbG8=''"
    by (simp add: strip_def isspace_def text_of_def base64_or_pad_def base64_alphabet_def)
  have u3: "?w3\<lparr>input_file := Contents (text_of ''aGVsbG8='')\<rparr>
            = world_with (Contents (text_of ''aGVsbG8='')) None"
    by (simp add: world_with_def)
  from malformed_input_run_fails [OF i1] n1 o(1)
  have "fst (run ?w1) = Inl ValueError" by blast
  moreover from malformed_input_run_fails [OF i2] a2 n2 o(2)
  have "\<exists>m. fst (run ?w2) = Inl (BinasciiError m)" by blast
  moreover from malformed_input_run_fails [OF i3] a3
  have "output_file (snd (run (?w3\<lparr>input_file := Contents (filter base64_or_pad (strip (text_of ''aGVsbG8=!'')))\<rparr>)))
         = output_file (snd (run ?w3))"
    by blast
  then have "output_file (snd (run (world_with (Contents (text_of ''aGVsbG8='')) None)))
       = output_file (snd (run ?w3))"
    unfolding f3 u3 .
  ultimately show ?thesis using n1 n2 a3 f3 by blast
qed

subsection \<open>The output file when decoding fails\<close>

text \<open>
  Claim C3 says that a run whose decode step fails creates no output file, or leaves the
  earlier one as it was. The output file is opened before the text is decoded: on the text
  \<open>aGVsbG8\<close> an output file holding three bytes is emptied, and an absent one is created.
\<close>

theorem decode_failure_preserves_output_counterexample:
  "run (world_with (Contents (text_of ''aGVsbG8'')) (Some [1, 2, 3]))
     = (Inl (BinasciiError IncorrectPadding),
        world_with (Contents (text_of ''aGVsbG8'')) (Some []))
   \<and> run (world_with (Contents (text_of ''aGVsbG8'')) None)
     = (Inl (BinasciiError IncorrectPadding),
        world_with (Contents (text_of ''aGVsbG8'')) (Some []))"
  by (simp add: evaluation)

text \<open>
  Claim C3, as the script has it. When the decode step fails, the run ends with that error
  and changes nothing but the output file, which exists afterwards and is empty. So the
  earlier contents are left as they were only when the file existed with zero bytes.
\<close>

theorem decode_failure_truncates_output:
  assumes "input_file w = Contents t" and "output_openable w"
    and "b64decode (strip t) = Inl e"
  shows "run w = (Inl e, w\<lparr>output_file := Some []\<rparr>)
       \<and> (output_file (snd (run w)) = output_file w) = (output_file w = Some [])"
  using run_decode_error [OF assms] by auto

theorem decode_failure_truncates_output_witness:
  "b64decode (strip (text_of ''aGVsbA='')) = Inl (BinasciiError IncorrectPadding)
   \<and> run (world_with (Contents (text_of ''aGVsbA='')) (Some [80, 75]))
       = (Inl (BinasciiError IncorrectPadding),
          world_with (Contents (text_of ''aGVsbA='')) (Some []))"
proof -
  have d: "b64decode (strip (text_of ''aGVsbA='')) = Inl (BinasciiError IncorrectPadding)"
    by (simp add: evaluation)
  from decode_failure_truncates_output
         [of "world_with (Contents (text_of ''aGVsbA='')) (Some [80, 75])" "text_of ''aGVsbA=''",
          OF _ _ d] d
  show ?thesis by (simp add: world_with_def)
qed

subsection \<open>Round trip\<close>

text \<open>
  Claim C4. For every byte sequence \<open>B\<close>: encode \<open>B\<close> with the standard scheme, trim the
  result, make it the contents of the input file and run the script; the run succeeds and
  the output file holds exactly \<open>B\<close>. The output file must be one that can be opened.
\<close>

theorem roundtrip_law:
  assumes "input_file w = Contents (strip (b64encode B))" and "output_openable w"
  shows "fst (run w) = Inr () \<and> output_file (snd (run w)) = Some B"
proof -
  have "b64decode (strip (strip (b64encode B))) = Inr B"
    by (simp add: strip_b64encode b64decode_b64encode)
  from run_decoded [OF assms this] show ?thesis by simp
qed

theorem roundtrip_law_witness:
  "strip (b64encode [255, 0, 128, 7]) = text_of ''/wCABw==''
   \<and> fst (run (world_with (Contents (text_of ''/wCABw=='')) (Some [9]))) = Inr ()
   \<and> output_file (snd (run (world_with (Contents (text_of ''/wCABw=='')) (Some [9]))))
       = Some [255, 0, 128, 7]"
proof -
  have e: "strip (b64encode [255, 0, 128, 7]) = text_of ''/wCABw==''"
    by (simp add: strip_def isspace_def b64encode_def table_b2a_base64_def BASE64_PAD_def
          text_of_def bytes_of_def)
  have i: "input_file (world_with (Contents (text_of ''/wCABw=='')) (Some [9]))
           = Contents (strip (b64encode [255, 0, 128, 7]))"
    and o: "output_openable (world_with (Contents (text_of ''/wCABw=='')) (Some [9]))"
    by (simp_all add: e world_with_def)
  from roundtrip_law [OF i o] e show ?thesis by simp
qed

subsection \<open>Trailing newline\<close>

text \<open>
  Claim C5. For every input text \<open>T\<close> and every state of the files, the run on \<open>T\<close>
  followed by a newline ends the same way, leaves the same bytes in the output file and
  prints the same as the run on \<open>T\<close>; the instance \<open>aGVsbG8=\<close> is evaluated after the
  theorem.
\<close>

theorem trailing_newline_tolerated:
  "fst (run (w\<lparr>input_file := Contents (T @ [10])\<rparr>)) = fst (run (w\<lparr>input_file := Contents T\<rparr>))
   \<and> output_file (snd (run (w\<lparr>input_file := Contents (T @ [10])\<rparr>)))
       = output_file (snd (run (w\<lparr>input_file := Contents T\<rparr>)))
   \<and> stdout (snd (run (w\<lparr>input_file := Contents (T @ [10])\<rparr>)))
       = stdout (snd (run (w\<lparr>input_file := Contents T\<rparr>)))"
proof -
  have "isspace 10" by (simp add: isspace_def)
  then have "strip (T @ [10]) = strip T"
    by (intro strip_trailing_space) simp
  then show ?thesis
    by (simp add: run_def open_read_def open_wb_def file_write_def print_def
          split: sum.splits)
qed

theorem trailing_newline_tolerated_witness:
  "output_file (snd (run (world_with (Contents (text_of ''aGVsbG8='' @ [10])) None)))
     = output_file (snd (run (world_with (Contents (text_of ''aGVsbG8='')) None)))
   \<and> output_file (snd (run (world_with (Contents (text_of ''aGVsbG8='')) None)))
     = Some (bytes_of ''hello'')"
proof -
  have "output_file (snd (run (world_with (Contents (text_of ''aGVsbG8='')) None)))
     = Some (bytes_of ''hello'')"
    by (simp add: evaluation)
  with trailing_newline_tolerated
         [where w = "world_with Absent None" and T = "text_of ''aGVsbG8=''"]
  show ?thesis by (simp add: world_with_def)
qed

subsection \<open>The scenario hello\<close>

text \<open>
  Claim C6. If the input file holds exactly \<open>aGVsbG8=\<close>, the run succeeds, the output file
  holds the 5 bytes \<open>hello\<close>, and exactly one line is added to standard output, the
  confirmation that ends with the name of the output file. Nothing else changes. The
  output file must be one that can be opened.
\<close>

theorem hello_scenario:
  assumes "input_file w = Contents (text_of ''aGVsbG8='')" and "output_openable w"
  shows "run w = (Inr (), w\<lparr>output_file := Some (bytes_of ''hello''),
                            stdout := stdout w @ [''ZIP file created successfully: '' @ output_path]\<rparr>)
       \<and> length (bytes_of ''hello'') = 5"
proof -
  have "b64decode (strip (text_of ''aGVsbG8='')) = Inr (bytes_of ''hello'')"
    by (simp add: evaluation)
  from run_decoded [OF assms this] show ?thesis
    by (simp add: output_path_def bytes_of_def)
qed

theorem hello_scenario_witness:
  "run (world_with (Contents (text_of ''aGVsbG8='')) None)
     = (Inr (), \<lparr>input_file = Contents (text_of ''aGVsbG8=''),
                 output_file = Some (bytes_of ''hello''), output_openable = True,
                 stdout = [''ZIP file created successfully: '' @ output_path]\<rparr>)"
  using hello_scenario [of "world_with (Contents (text_of ''aGVsbG8='')) None"]
  by (simp add: world_with_def)

subsection \<open>Missing input\<close>

text \<open>
  Claim C7. If the input file is missing or cannot be read, the run fails and the state is
  the one it started in: an absent output file stays absent, an existing one keeps its bytes.
\<close>

theorem missing_input_leaves_output:
  assumes "input_file w = Absent \<or> input_file w = Unreadable"
  shows "(\<exists>e. fst (run w) = Inl e) \<and> snd (run w) = w"
  using assms run_Absent [of w] run_Unreadable [of w] by auto

theorem missing_input_leaves_output_witness:
  "(\<exists>e. fst (run (world_with Absent (Some [80, 75, 3, 4]))) = Inl e)
   \<and> output_file (snd (run (world_with Absent (Some [80, 75, 3, 4])))) = Some [80, 75, 3, 4]
   \<and> output_file (snd (run (world_with Unreadable None))) = None"
  using missing_input_leaves_output [of "world_with Absent (Some [80, 75, 3, 4])"]
    missing_input_leaves_output [of "world_with Unreadable None"]
  by (simp add: world_with_def)

subsection \<open>Running twice\<close>

text \<open>
  Claim C8. For every state, a second run right after the first ends the way the first did
  and leaves the output file with the bytes the first run left: the second run overwrites,
  it does not append. A run does not change the input file.
\<close>

theorem run_twice_idempotent:
  "fst (run (snd (run w))) = fst (run w)
   \<and> output_file (snd (run (snd (run w)))) = output_file (snd (run w))
   \<and> input_file (snd (run w)) = input_file w"
proof (cases w rule: run_cases)
  case absent
  then show ?thesis by simp
next
  case unreadable
  then show ?thesis by simp
next
  case (unwritable t)
  then show ?thesis by simp
next
  case (decode_error t e)
  let ?w' = "w\<lparr>output_file := Some []\<rparr>"
  have "run ?w' = (Inl e, ?w'\<lparr>output_file := Some []\<rparr>)"
    using decode_error by (intro run_decode_error [of _ t]) simp_all
  with decode_error show ?thesis by simp
next
  case (decoded t decoded)
  let ?w' = "w\<lparr>output_file := Some decoded,
               stdout := stdout w @ [''ZIP file created successfully: GhanaVoiceLedger.zip'']\<rparr>"
  have "run ?w' = (Inr (), ?w'\<lparr>output_file := Some decoded,
               stdout := stdout ?w' @ [''ZIP file created successfully: GhanaVoiceLedger.zip'']\<rparr>)"
    using decoded by (intro run_decoded [of _ t]) simp_all
  with decoded show ?thesis by simp
qed

theorem run_twice_idempotent_witness:
  "output_file (snd (run (world_with (Contents (text_of ''aGVsbG8='')) None)))
     = Some (bytes_of ''hello'')
   \<and> output_file (snd (run (snd (run (world_with (Contents (text_of ''aGVsbG8='')) None)))))
     = Some (bytes_of ''hello'')"
proof -
  have "output_file (snd (run (world_with (Contents (text_of ''aGVsbG8='')) None)))
     = Some (bytes_of ''hello'')"
    by (simp add: evaluation)
  with run_twice_idempotent [of "world_with (Contents (text_of ''aGVsbG8='')) None"]
  show ?thesis by simp
qed

subsection \<open>Characters outside the alphabet\<close>

text \<open>
  Claim C9 says that the decode step succeeds on every trimmed text whose alphabet characters
  have a valid padding length, and raises only for an invalid padding length. A text that
  starts with the byte order mark U+FEFF is left as it is by \<open>strip\<close>, its alphabet
  characters \<open>aGVsbG8=\<close> decode to \<open>hello\<close>, and yet the decode step raises
  \<open>ValueError\<close>: a \<open>str\<close> argument must be ASCII.
\<close>

theorem nonalphabet_discarded_counterexample:
  "\<not> base64_or_pad 65279
   \<and> strip (65279 # text_of ''aGVsbG8='') = 65279 # text_of ''aGVsbG8=''
   \<and> filter base64_or_pad (65279 # text_of ''aGVsbG8='') = text_of ''aGVsbG8=''
   \<and> b64decode (text_of ''aGVsbG8='') = Inr (bytes_of ''hello'')
   \<and> b64decode (65279 # text_of ''aGVsbG8='') = Inl ValueError"
  by (simp add: evaluation base64_or_pad_def base64_alphabet_def)

text \<open>
  Claim C9, as the library has it. For every ASCII text the decode step discards the
  characters that are neither in the alphabet nor \<open>=\<close>: it returns what it returns for
  the text without them. An error it raises is a \<open>binascii.Error\<close>, and when the
  characters that remain are \<open>n\<close> alphabet characters followed by \<open>k\<close> characters \<open>=\<close>,
  it raises exactly when that padding length is invalid.
\<close>

theorem nonalphabet_ascii_discarded:
  assumes "is_ascii s"
  shows "b64decode s = b64decode (filter base64_or_pad s)
       \<and> (\<forall>e. b64decode s = Inl e \<longrightarrow> (\<exists>m. e = BinasciiError m))
       \<and> (filter base64_or_pad s = d @ replicate k 61 \<and> 61 \<notin> set d
            \<longrightarrow> isl (b64decode s) = padding_invalid (length d) k)"
proof (intro conjI allI impI)
  show eq: "b64decode s = b64decode (filter base64_or_pad s)"
    using assms by (simp add: b64decode_filter)
  show "\<exists>m. e = BinasciiError m" if "b64decode s = Inl e" for e
    using b64decode_error [OF that] assms by auto
  show "isl (b64decode s) = padding_invalid (length d) k"
    if form: "filter base64_or_pad s = d @ replicate k 61 \<and> 61 \<notin> set d"
  proof -
    have sub: "set d \<subseteq> set (filter base64_or_pad s)"
      using form by auto
    have "is_ascii d"
      using sub assms by (auto simp: is_ascii_def list_all_iff)
    moreover have "base64_alphabet c" if "c \<in> set d" for c
    proof -
      from that sub have "c \<in> set (filter base64_or_pad s)" by blast
      then have "base64_or_pad c" by simp
      moreover from that form have "c \<noteq> 61" by auto
      ultimately show ?thesis by (simp add: base64_or_pad_def)
    qed
    then have "filter base64_alphabet d = d"
      by (simp add: filter_id_conv)
    ultimately show ?thesis
      using b64decode_body_then_pads [of d k] form eq by simp
  qed
qed

theorem nonalphabet_ascii_discarded_witness:
  "is_ascii (text_of ''aG!Vs bG8='')
   \<and> filter base64_or_pad (text_of ''aG!Vs bG8='') = text_of ''aGVsbG8'' @ replicate 1 61
   \<and> b64decode (text_of ''aG!Vs bG8='') = Inr (bytes_of ''hello'')
   \<and> isl (b64decode (text_of ''aG!Vs bG8='')) = padding_invalid (length (text_of ''aGVsbG8'')) 1"
proof -
  have a: "is_ascii (text_of ''aG!Vs bG8='')"
    by (simp add: is_ascii_def text_of_def)
  have f: "filter base64_or_pad (text_of ''aG!Vs bG8='') = text_of ''aGVsbG8'' @ replicate 1 61"
    and n: "61 \<notin> set (text_of ''aGVsbG8'')"
    by (simp_all add: text_of_def base64_or_pad_def base64_alphabet_def)
  have v: "b64decode (text_of ''aGVsbG8'' @ replicate 1 61) = Inr (bytes_of ''hello'')"
    by (simp add: evaluation)
  note t = nonalphabet_ascii_discarded [OF a, of "text_of ''aGVsbG8''" 1]
  from t have "b64decode (text_of ''aG!Vs bG8='') = Inr (bytes_of ''hello'')"
    unfolding f v by (rule conjunct1)
  moreover from t f n
  have "isl (b64decode (text_of ''aG!Vs bG8='')) = padding_invalid (length (text_of ''aGVsbG8'')) 1"
    by blast
  ultimately show ?thesis using a f by blast
qed

subsection \<open>The output file after a decode error\<close>

text \<open>
  Claim C10. The output file is opened, and so truncated, before the text is decoded: for
  every run that ends with an error of the decode step, \<open>ValueError\<close> or
  \<open>binascii.Error\<close>, the output file exists afterwards and holds zero bytes, whether it
  held bytes or was absent before.
\<close>

theorem decode_error_leaves_empty_output:
  assumes "fst (run w) = Inl ValueError \<or> fst (run w) = Inl (BinasciiError m)"
  shows "output_file (snd (run w)) = Some []"
  using assms by (cases w rule: run_cases) auto

theorem decode_error_leaves_empty_output_witness:
  "fst (run (world_with (Contents (text_of ''a'')) None)) = Inl (BinasciiError (InvalidLength 1))
   \<and> output_file (snd (run (world_with (Contents (text_of ''a'')) None))) = Some []
   \<and> fst (run (world_with (Contents [233]) (Some [80, 75]))) = Inl ValueError
   \<and> output_file (snd (run (world_with (Contents [233]) (Some [80, 75])))) = Some []"
proof -
  have a: "fst (run (world_with (Contents (text_of ''a'')) None))
             = Inl (BinasciiError (InvalidLength 1))"
    and b: "fst (run (world_with (Contents [233]) (Some [80, 75]))) = Inl ValueError"
    by (simp_all add: evaluation)
  from decode_error_leaves_empty_output [OF disjI2 [OF a]]
       decode_error_leaves_empty_output [OF disjI1 [OF b]] a b
  show ?thesis by simp
qed

end
